theory Spec2Isabelle
  imports Main
begin

section \<open>Text and the Python string operations used by fparse\_utils\<close>

text \<open>
  Python strings are modelled as \<open>string\<close> (lists of \<open>char\<close>); every \<open>char\<close> stands for
  one code point below 256.  The functions below are the string methods and slices that
  \<open>fparse_utils.py\<close> calls, with Python's behaviour written out.
\<close>

definition nl :: char where
  "nl = CHR 0x0A"

definition tab :: char where
  "tab = CHR 0x09"

definition squote :: char where
  "squote = CHR 0x27"

definition dquote :: char where
  "dquote = CHR 0x22"

text \<open>\<open>str.isspace\<close> on one code point below 256 (also what \<open>\s\<close> matches).\<close>

definition is_space :: "char \<Rightarrow> bool" where
  "is_space c = (c \<in> set [CHR 0x09, CHR 0x0A, CHR 0x0B, CHR 0x0C, CHR 0x0D,
                            CHR 0x1C, CHR 0x1D, CHR 0x1E, CHR 0x1F, CHR 0x20,
                            CHR 0x85, CHR 0xA0])"

text \<open>Normalisation of one slice index, as Python does it for a sequence of length \<open>n\<close>.\<close>

definition slice_index :: "nat \<Rightarrow> int \<Rightarrow> nat" where
  "slice_index n i = (if i < 0 then nat (max 0 (int n + i)) else min n (nat i))"

text \<open>\<open>s[i:j]\<close>, \<open>s[i:]\<close> and \<open>s[:j]\<close>.\<close>

definition slice :: "string \<Rightarrow> int \<Rightarrow> int \<Rightarrow> string" where
  "slice s i j = (let a = slice_index (length s) i; b = slice_index (length s) j
                  in take (b - a) (drop a s))"

definition slice_from :: "string \<Rightarrow> int \<Rightarrow> string" where
  "slice_from s i = drop (slice_index (length s) i) s"

definition slice_to :: "string \<Rightarrow> int \<Rightarrow> string" where
  "slice_to s j = take (slice_index (length s) j) s"

text \<open>\<open>s.strip()\<close>, \<open>s.strip('&')\<close>, \<open>s.rstrip('\n')\<close>, \<open>s.endswith('&')\<close>.\<close>

definition rstrip_by :: "(char \<Rightarrow> bool) \<Rightarrow> string \<Rightarrow> string" where
  "rstrip_by p s = rev (dropWhile p (rev s))"

definition strip_by :: "(char \<Rightarrow> bool) \<Rightarrow> string \<Rightarrow> string" where
  "strip_by p s = rstrip_by p (dropWhile p s)"

definition strip :: "string \<Rightarrow> string" where
  "strip s = strip_by is_space s"

definition strip_amp :: "string \<Rightarrow> string" where
  "strip_amp s = strip_by (\<lambda>c. c = CHR ''&'') s"

definition rstrip_nl :: "string \<Rightarrow> string" where
  "rstrip_nl s = rstrip_by (\<lambda>c. c = nl) s"

definition endswith_amp :: "string \<Rightarrow> bool" where
  "endswith_amp s = (s \<noteq> [] \<and> last s = CHR ''&'')"

text \<open>\<open>s.replace("\t", 8 * " ")\<close>.\<close>

definition expand_tabs :: "string \<Rightarrow> string" where
  "expand_tabs s = concat (map (\<lambda>c. if c = tab then replicate 8 (CHR '' '') else [c]) s)"

text \<open>\<open>s.replace(old, '', 1)\<close>: the first occurrence of \<open>old\<close> is removed.\<close>

fun remove_first :: "string \<Rightarrow> string \<Rightarrow> string" where
  "remove_first old [] = []"
| "remove_first old (c # cs) =
     (if old \<noteq> [] \<and> take (length old) (c # cs) = old then drop (length old) (c # cs)
      else c # remove_first old cs)"

section \<open>The regular expressions\<close>

text \<open>
  Each pattern is modelled by the predicate ``\<open>RE.search(s)\<close> finds a match''.
  \<open>FYPP_OPEN_RE\<close> and \<open>FYPP_CLOSE_RE\<close> are unanchored two-character alternatives; the
  alternatives of \<open>NOTFORTRAN_LINE_RE\<close> and \<open>FYPP_LINE_RE\<close> are all anchored with \<open>^\<close>
  (no \<open>MULTILINE\<close> flag), so they match at position 0 only.
\<close>

fun FYPP_OPEN_search :: "string \<Rightarrow> bool" where
  "FYPP_OPEN_search (a # b # r) =
     ((b = CHR ''{'' \<and> (a = CHR ''#'' \<or> a = CHR ''$'' \<or> a = CHR ''@''))
      \<or> FYPP_OPEN_search (b # r))"
| "FYPP_OPEN_search _ = False"

fun FYPP_CLOSE_search :: "string \<Rightarrow> bool" where
  "FYPP_CLOSE_search (a # b # r) =
     ((a = CHR ''}'' \<and> (b = CHR ''#'' \<or> b = CHR ''$'' \<or> b = CHR ''@''))
      \<or> FYPP_CLOSE_search (b # r))"
| "FYPP_CLOSE_search _ = False"

text \<open>\<open>FYPP_LINE_STR = ^(#!|#:|\$:|@:)\<close>\<close>

fun FYPP_LINE_search :: "string \<Rightarrow> bool" where
  "FYPP_LINE_search (a # b # r) =
     ((a = CHR ''#'' \<and> b = CHR ''!'') \<or> (a = CHR ''#'' \<and> b = CHR '':'')
      \<or> (a = CHR ''$'' \<and> b = CHR '':'') \<or> (a = CHR ''@'' \<and> b = CHR '':''))"
| "FYPP_LINE_search _ = False"

text \<open>\<open>CPP_STR = ^#[^!:{}]\<close>\<close>

fun CPP_search :: "string \<Rightarrow> bool" where
  "CPP_search (a # b # r) =
     (a = CHR ''#'' \<and> b \<noteq> CHR ''!'' \<and> b \<noteq> CHR '':'' \<and> b \<noteq> CHR ''{'' \<and> b \<noteq> CHR ''}'')"
| "CPP_search _ = False"

text \<open>\<open>COMMENT_LINE_STR = ^!\<close>\<close>

fun COMMENT_LINE_search :: "string \<Rightarrow> bool" where
  "COMMENT_LINE_search (a # r) = (a = CHR ''!'')"
| "COMMENT_LINE_search _ = False"

definition NOTFORTRAN_LINE_search :: "string \<Rightarrow> bool" where
  "NOTFORTRAN_LINE_search s = (FYPP_LINE_search s \<or> CPP_search s \<or> COMMENT_LINE_search s)"

text \<open>
  \<open>OMP_SUBS_RE = ^\s*(!\$(omp)?)\<close> with \<open>IGNORECASE\<close>: \<open>OMP_SUBS_group1 s\<close> is
  \<open>Some\<close> of group 1 of the match, \<open>None\<close> when \<open>search\<close> finds nothing.
\<close>

definition is_omp :: "string \<Rightarrow> bool" where
  "is_omp s = (case s of
      [a, b, c] \<Rightarrow> (a = CHR ''o'' \<or> a = CHR ''O'') \<and> (b = CHR ''m'' \<or> b = CHR ''M'')
                   \<and> (c = CHR ''p'' \<or> c = CHR ''P'')
    | _ \<Rightarrow> False)"

definition OMP_SUBS_group1 :: "string \<Rightarrow> string option" where
  "OMP_SUBS_group1 s =
     (let r = dropWhile is_space s in
      if take 2 r = [CHR ''!'', CHR ''$''] then
        (if is_omp (take 3 (drop 2 r)) then Some (take 5 r) else Some (take 2 r))
      else None)"

section \<open>Exceptions\<close>

text \<open>
  The exceptions that leave the methods modelled here: \<open>IndexError\<close> (an index into an
  empty string, \<open>popleft\<close> on an empty deque) and \<open>RecursionError\<close>, which the
  interpreter raises when calls nest deeper than its recursion limit.
\<close>

datatype error = IndexError | RecursionError

section \<open>CharFilter\<close>

text \<open>
  The fields of \<open>CharFilter\<close>.  \<open>it\<close> is the position of the iterator
  \<open>enumerate(self._content)\<close>: the index of the next character it will produce.
\<close>

record CharFilter =
  content :: string
  it :: nat
  instring :: string
  infypp :: bool
  incomment :: string
  filter_comments :: bool
  filter_strings :: bool

text \<open>\<open>CharFilter.__init__\<close>\<close>

definition CharFilter_init :: "string \<Rightarrow> bool \<Rightarrow> bool \<Rightarrow> CharFilter" where
  "CharFilter_init string fc fs =
     \<lparr>content = string, it = 0, instring = [], infypp = False, incomment = [],
      filter_comments = fc, filter_strings = fs\<rparr>"

text \<open>\<open>CharFilter.update\<close>\<close>

definition update :: "CharFilter \<Rightarrow> string \<Rightarrow> bool \<Rightarrow> bool \<Rightarrow> CharFilter" where
  "update cf string fc fs =
     cf\<lparr>content := string, it := 0, filter_comments := fc, filter_strings := fs\<rparr>"

text \<open>
  The state updates of \<open>__next__\<close> (source lines 108 to 130) on the character \<open>char\<close> with
  lookahead \<open>char2\<close>, and how that part of the method is left: \<open>Fall\<close> falls through to
  the filter checks of lines 132 to 140, \<open>Ret1\<close> is \<open>return self.__next__()\<close> (line 130),
  \<open>Ret2\<close> is \<open>self.__next__(); return self.__next__()\<close> (lines 123 and 124).
\<close>

datatype exit = Fall | Ret1 | Ret2

definition is_quote :: "char \<Rightarrow> bool" where
  "is_quote c = (c = dquote \<or> c = squote)"

definition classify :: "CharFilter \<Rightarrow> char \<Rightarrow> string \<Rightarrow> CharFilter \<times> exit" where
  "classify cf char char2 =
     (if instring cf = [] then
        (if incomment cf = [] then
           (if FYPP_OPEN_search char2 then (cf\<lparr>instring := char2, infypp := True\<rparr>, Fall)
            else if NOTFORTRAN_LINE_search char2 then (cf\<lparr>incomment := [char]\<rparr>, Fall)
            else if is_quote char then (cf\<lparr>instring := [char]\<rparr>, Fall)
            else (cf, Fall))
         else (cf, Fall))
      else if infypp cf then
        (if FYPP_CLOSE_search char2 then
           (cf\<lparr>instring := [], infypp := False\<rparr>, if filter_strings cf then Ret2 else Fall)
         else (cf, Fall))
      else if is_quote char then
        (if instring cf = [char] then
           (cf\<lparr>instring := []\<rparr>, if filter_strings cf then Ret1 else Fall)
         else (cf, Fall))
      else (cf, Fall))"

text \<open>
  Lines 104 to 130 of \<open>__next__\<close> when the iterator is not exhausted:
  \<open>pos, char = next(self._it)\<close>, \<open>char2 = self._content[pos:pos+2]\<close>, then the state updates.
\<close>

definition advance :: "CharFilter \<Rightarrow> CharFilter \<times> exit" where
  "advance cf =
     (let pos = it cf;
          char = content cf ! pos;
          char2 = take 2 (drop pos (content cf))
      in classify (cf\<lparr>it := Suc pos\<rparr>) char char2)"

text \<open>
  \<open>CharFilter.__next__\<close>.  The result is \<open>None\<close> for \<open>StopIteration\<close> (raised by
  \<open>next(self._it)\<close> when the iterator is exhausted, or at line 134) and the pair
  \<open>(pos, char)\<close> otherwise, together with the object after the call.
\<close>

function next_cf :: "CharFilter \<Rightarrow> (nat \<times> char) option \<times> CharFilter" where
  "next_cf cf =
     (if length (content cf) \<le> it cf then (None, cf)
      else
        (case snd (advance cf) of
           Ret2 \<Rightarrow> (case next_cf (fst (advance cf)) of
                       (None, cf2) \<Rightarrow> (None, cf2)
                     | (Some x, cf2) \<Rightarrow> next_cf cf2)
         | Ret1 \<Rightarrow> next_cf (fst (advance cf))
         | Fall \<Rightarrow>
             (if filter_comments (fst (advance cf)) \<and> incomment (fst (advance cf)) \<noteq> []
              then (None, fst (advance cf))
              else if filter_strings (fst (advance cf)) \<and> instring (fst (advance cf)) \<noteq> []
              then next_cf (fst (advance cf))
              else (Some (it cf, content cf ! it cf), fst (advance cf)))))"
  by pat_completeness auto

lemma advance_frame:
  "content (fst (advance cf)) = content cf" "it (fst (advance cf)) = Suc (it cf)"
  "filter_comments (fst (advance cf)) = filter_comments cf"
  "filter_strings (fst (advance cf)) = filter_strings cf"
  by (simp_all add: advance_def classify_def Let_def)

lemma next_cf_partial:
  "next_cf_dom cf \<Longrightarrow>
     content (snd (next_cf cf)) = content cf \<and> it cf \<le> it (snd (next_cf cf))"
proof (induction cf rule: next_cf.pinduct)
  case (1 cf)
  show ?case
    unfolding next_cf.psimps [OF "1.hyps"]
    using "1.IH"
    by (auto simp: advance_frame split: exit.splits prod.splits option.splits)
qed

termination next_cf
proof (relation "measure (\<lambda>cf. length (content cf) - it cf)", goal_cases)
  case 1
  show ?case by simp
next
  case (2 cf)
  then show ?case by (auto simp add: advance_frame)
next
  case (3 cf)
  then show ?case by (auto simp add: advance_frame)
next
  case (4 cf)
  then show ?case by (auto simp add: advance_frame)
next
  case (5 cf x cf2 y)
  from 5 have "snd (next_cf (fst (advance cf))) = cf2"
    by (metis snd_conv)
  with 5 show ?case
    using next_cf_partial [of "fst (advance cf)"] by (auto simp add: advance_frame)
qed

declare next_cf.simps [simp del]

lemma next_cf_Some:
  "next_cf cf = (Some x, cf') \<Longrightarrow>
     it cf < it cf' \<and> it cf' \<le> length (content cf) \<and> content cf' = content cf"
proof (induction cf arbitrary: x cf' rule: next_cf.induct)
  case (1 cf)
  from "1.prems" have lt: "\<not> length (content cf) \<le> it cf"
    by (subst (asm) next_cf.simps) (simp split: if_splits)
  show ?case
  proof (cases "snd (advance cf)")
    case Fall
    from "1.prems" lt Fall
    have nc: "\<not> (filter_comments (fst (advance cf)) \<and> incomment (fst (advance cf)) \<noteq> [])"
      by (subst (asm) next_cf.simps) (auto split: if_splits)
    show ?thesis
    proof (cases "filter_strings (fst (advance cf)) \<and> instring (fst (advance cf)) \<noteq> []")
      case True
      with "1.prems" lt Fall nc have "next_cf (fst (advance cf)) = (Some x, cf')"
        by (subst (asm) next_cf.simps) (simp split: if_splits)
      from "1.IH"(1) [OF lt Fall nc True this] show ?thesis
        by (auto simp: advance_frame)
    next
      case False
      with "1.prems" lt Fall nc show ?thesis
        by (subst (asm) next_cf.simps) (auto simp: advance_frame split: if_splits)
    qed
  next
    case Ret1
    with "1.prems" lt have "next_cf (fst (advance cf)) = (Some x, cf')"
      by (subst (asm) next_cf.simps) simp
    from "1.IH"(2) [OF lt Ret1 this] show ?thesis
      by (auto simp: advance_frame)
  next
    case Ret2
    with "1.prems" lt obtain y cf2 where
      a: "next_cf (fst (advance cf)) = (Some y, cf2)" and b: "next_cf cf2 = (Some x, cf')"
      by (subst (asm) next_cf.simps) (auto split: prod.splits option.splits)
    from "1.IH"(3) [OF lt Ret2 a] "1.IH"(4) [OF lt Ret2 a [symmetric] refl b] show ?thesis
      by (auto simp: advance_frame)
  qed
qed

text \<open>
  \<open>CharFilter.filter_all\<close>: the loop \<open>for pos, char in self\<close> with its accumulator
  \<open>filtered_str\<close>; the result is the string and the object after the loop.
\<close>

function filter_all_loop :: "CharFilter \<Rightarrow> string \<Rightarrow> string \<times> CharFilter" where
  "filter_all_loop cf filtered_str =
     (case next_cf cf of
        (None, cf') \<Rightarrow> (filtered_str, cf')
      | (Some (pos, char), cf') \<Rightarrow> filter_all_loop cf' (filtered_str @ [char]))"
  by pat_completeness auto
termination
proof (relation "measure (\<lambda>(cf, s). length (content cf) - it cf)", goal_cases)
  case 1
  show ?case by simp
next
  case (2 cf filtered_str x cf' y pos char)
  from 2 have "next_cf cf = (Some y, cf')" by simp
  from next_cf_Some [OF this] show ?case by auto
qed

declare filter_all_loop.simps [simp del]

definition filter_all :: "CharFilter \<Rightarrow> string \<times> CharFilter" where
  "filter_all cf = filter_all_loop cf []"

lemma next_cf_None_exhausted: "length (content cf) \<le> it cf \<Longrightarrow> next_cf cf = (None, cf)"
  by (subst next_cf.simps) simp

lemma next_cf_bounds:
  "content (snd (next_cf cf)) = content cf \<and> it cf \<le> it (snd (next_cf cf))
   \<and> (it cf \<le> length (content cf) \<longrightarrow> it (snd (next_cf cf)) \<le> length (content cf))"
proof (induction cf rule: next_cf.induct)
  case (1 cf)
  show ?case
    by (subst (1 2 3) next_cf.simps, insert 1)
      (auto simp: advance_frame split: exit.splits prod.splits option.splits)
qed

lemma next_cf_advances:
  assumes "it cf < length (content cf)"
  shows "it cf < it (snd (next_cf cf)) \<and> it (snd (next_cf cf)) \<le> length (content cf)
     \<and> content (snd (next_cf cf)) = content cf"
proof -
  let ?a = "fst (advance cf)"
  have a: "content ?a = content cf" "it ?a = Suc (it cf)"
    by (simp_all add: advance_frame)
  have b: "content (snd (next_cf ?a)) = content cf" "Suc (it cf) \<le> it (snd (next_cf ?a))"
    "it (snd (next_cf ?a)) \<le> length (content cf)"
    using next_cf_bounds [of ?a] assms a by auto
  have c: "content (snd (next_cf (snd (next_cf ?a)))) = content cf"
    "Suc (it cf) \<le> it (snd (next_cf (snd (next_cf ?a))))"
    "it (snd (next_cf (snd (next_cf ?a)))) \<le> length (content cf)"
    using next_cf_bounds [of "snd (next_cf ?a)"] b by auto
  show ?thesis
    by (subst (1 2 3) next_cf.simps, insert assms a b c)
      (auto split: exit.splits prod.splits option.splits)
qed

subsection \<open>The recursion limit\<close>

text \<open>
  \<open>__next__\<close> skips a filtered character by calling itself (lines 123, 124, 130 and 138),
  so every skipped character nests one Python call deeper.  \<open>next_limited frames\<close> is
  \<open>__next__\<close> called when the interpreter allows \<open>frames\<close> more nested calls (its recursion
  limit less the depth of the stack at the call): a call with no frame left raises
  \<open>RecursionError\<close>, and each \<open>self.__next__()\<close> has one frame less.  \<open>next_cf\<close> above
  is the method without that limit.
\<close>

fun next_limited :: "nat \<Rightarrow> CharFilter \<Rightarrow> (error + (nat \<times> char) option) \<times> CharFilter" where
  "next_limited 0 cf = (Inl RecursionError, cf)"
| "next_limited (Suc frames) cf =
     (if length (content cf) \<le> it cf then (Inr None, cf)
      else
        (case snd (advance cf) of
           Ret2 \<Rightarrow> (case next_limited frames (fst (advance cf)) of
                       (Inl err, cf2) \<Rightarrow> (Inl err, cf2)
                     | (Inr None, cf2) \<Rightarrow> (Inr None, cf2)
                     | (Inr (Some x), cf2) \<Rightarrow> next_limited frames cf2)
         | Ret1 \<Rightarrow> next_limited frames (fst (advance cf))
         | Fall \<Rightarrow>
             (if filter_comments (fst (advance cf)) \<and> incomment (fst (advance cf)) \<noteq> []
              then (Inr None, fst (advance cf))
              else if filter_strings (fst (advance cf)) \<and> instring (fst (advance cf)) \<noteq> []
              then next_limited frames (fst (advance cf))
              else (Inr (Some (it cf, content cf ! it cf)), fst (advance cf)))))"

lemma next_limited_agrees:
  "next_limited frames cf = (Inr r, cf') \<Longrightarrow> next_cf cf = (r, cf')"
proof (induction frames arbitrary: cf r cf')
  case 0
  then show ?case by simp
next
  case (Suc frames)
  show ?case
    by (subst next_cf.simps, insert Suc.prems)
      (auto split: if_splits exit.splits prod.splits sum.splits option.splits
        dest!: Suc.IH)
qed

lemma next_limited_enough:
  "length (content cf) - it cf < frames \<Longrightarrow>
     next_limited frames cf = (Inr (fst (next_cf cf)), snd (next_cf cf))"
proof (induction frames arbitrary: cf)
  case 0
  then show ?case by simp
next
  case (Suc frames)
  let ?a = "fst (advance cf)"
  show ?case
  proof (cases "length (content cf) \<le> it cf")
    case True
    then show ?thesis by (simp add: next_cf_None_exhausted)
  next
    case False
    with Suc.prems have ra: "length (content ?a) - it ?a < frames"
      by (simp add: advance_frame)
    note one = Suc.IH [OF ra]
    from next_cf_bounds [of ?a] ra
    have "length (content (snd (next_cf ?a))) - it (snd (next_cf ?a)) < frames" by auto
    note two = Suc.IH [OF this]
    show ?thesis
      by (subst (1 2) next_cf.simps, insert False one two)
        (auto split: exit.splits prod.splits option.splits)
  qed
qed

lemma next_limited_bounds:
  "content (snd (next_limited frames cf)) = content cf
   \<and> it cf \<le> it (snd (next_limited frames cf))
   \<and> (it cf \<le> length (content cf) \<longrightarrow> it (snd (next_limited frames cf)) \<le> length (content cf))"
proof (induction frames arbitrary: cf)
  case 0
  then show ?case by simp
next
  case (Suc frames)
  let ?a = "fst (advance cf)"
  note one = Suc.IH [of ?a]
  note two = Suc.IH [of "snd (next_limited frames ?a)"]
  from one two show ?case
    by (auto simp: advance_frame split: exit.splits prod.splits option.splits sum.splits)
qed

lemma next_limited_advances:
  assumes "it cf < length (content cf)" "0 < frames"
  shows "it cf < it (snd (next_limited frames cf))
     \<and> it (snd (next_limited frames cf)) \<le> length (content cf)
     \<and> content (snd (next_limited frames cf)) = content cf"
proof -
  from assms(2) obtain f where f: "frames = Suc f" by (cases frames) auto
  let ?a = "fst (advance cf)"
  note one = next_limited_bounds [of f ?a]
  note two = next_limited_bounds [of f "snd (next_limited f ?a)"]
  from one two assms(1) show ?thesis unfolding f
    by (auto simp: advance_frame split: exit.splits prod.splits option.splits sum.splits)
qed

text \<open>
  \<open>filter_all\<close> under the recursion limit: the loop \<open>for pos, char in self\<close> calls
  \<open>__next__\<close> with the same number of frames left at every iteration, and an exception
  raised by \<open>__next__\<close> leaves \<open>filter_all\<close>.
\<close>

function filter_all_limited ::
  "nat \<Rightarrow> CharFilter \<Rightarrow> string \<Rightarrow> (error + string) \<times> CharFilter" where
  "filter_all_limited frames cf filtered_str =
     (case next_limited frames cf of
        (Inl err, cf') \<Rightarrow> (Inl err, cf')
      | (Inr None, cf') \<Rightarrow> (Inr filtered_str, cf')
      | (Inr (Some (pos, char)), cf') \<Rightarrow> filter_all_limited frames cf' (filtered_str @ [char]))"
  by pat_completeness auto
termination
proof (relation "measure (\<lambda>(frames, cf, s). length (content cf) - it cf)", goal_cases)
  case 1
  show ?case by simp
next
  case 2
  then show ?case
    by (auto dest!: next_limited_agrees [OF sym] next_cf_Some)
qed

declare filter_all_limited.simps [simp del]

lemma filter_all_limited_enough:
  "length (content cf) - it cf < frames \<Longrightarrow>
     filter_all_limited frames cf acc
       = (Inr (fst (filter_all_loop cf acc)), snd (filter_all_loop cf acc))"
proof (induction cf acc rule: filter_all_loop.induct)
  case (1 cf filtered_str)
  note nx = next_limited_enough [OF "1.prems"]
  show ?case
  proof (cases "next_cf cf")
    case (Pair r cf')
    show ?thesis
    proof (cases r)
      case None
      with Pair nx show ?thesis
        by (subst filter_all_limited.simps, subst (1 2) filter_all_loop.simps) simp
    next
      case (Some y)
      obtain pos char where y: "y = (pos, char)" by (cases y)
      from Pair Some have "next_cf cf = (Some y, cf')" by simp
      from next_cf_Some [OF this] "1.prems"
      have "length (content cf') - it cf' < frames" by auto
      from "1.IH" [OF Pair [symmetric] Some y [symmetric] this] Pair Some y nx
      show ?thesis
        by (subst filter_all_limited.simps, subst (1 2) filter_all_loop.simps) simp
    qed
  qed
qed

lemma quote_opens_nothing_else:
  "is_quote q \<Longrightarrow> length t \<le> 1 \<Longrightarrow>
     \<not> FYPP_OPEN_search (q # t) \<and> \<not> NOTFORTRAN_LINE_search (q # t)"
  by (cases t; cases "tl t")
    (auto simp: is_quote_def squote_def dquote_def NOTFORTRAN_LINE_search_def)

lemma string_run_overflows:
  assumes "instring cf = [q]" "\<not> infypp cf" "incomment cf = []" "filter_strings cf"
    and "frames \<le> n" "it cf + n \<le> length (content cf)"
    and "\<forall>i. it cf \<le> i \<and> i < it cf + n \<longrightarrow> content cf ! i \<noteq> q"
  shows "fst (next_limited frames cf) = Inl RecursionError"
  using assms
proof (induction frames arbitrary: cf n)
  case 0
  then show ?case by simp
next
  case (Suc frames)
  let ?a = "fst (advance cf)"
  from Suc.prems have lt: "it cf < length (content cf)" and ne: "content cf ! it cf \<noteq> q"
    by auto
  from Suc.prems(1,2) ne
  have adv: "advance cf = (cf\<lparr>it := Suc (it cf)\<rparr>, Fall)"
    by (simp add: advance_def classify_def Let_def)
  from Suc.prems obtain m where m: "n = Suc m" by (cases n) auto
  have "fst (next_limited frames ?a) = Inl RecursionError"
  proof (rule Suc.IH [of ?a m])
    show "\<forall>i. it ?a \<le> i \<and> i < it ?a + m \<longrightarrow> content ?a ! i \<noteq> q"
      using Suc.prems(7) m by (simp add: adv)
  qed (use Suc.prems m in \<open>simp_all add: adv\<close>)
  with lt Suc.prems(1,3,4) show ?case
    by (simp add: adv split: prod.splits)
qed

lemma quoted_run_overflows:
  assumes "is_quote q" "c \<noteq> q" "frames \<le> Suc n"
  shows "fst (filter_all_limited frames (CharFilter_init (q # replicate n c) fc True) [])
           = Inl RecursionError"
proof -
  let ?cf = "CharFilter_init (q # replicate n c) fc True"
  have nx: "fst (next_limited frames ?cf) = Inl RecursionError"
  proof (cases frames)
    case 0
    then show ?thesis by simp
  next
    case (Suc f)
    have t: "take 2 (q # replicate n c) = q # take 1 (replicate n c)"
      by (simp add: numeral_2_eq_2)
    from quote_opens_nothing_else [OF assms(1), of "take 1 (replicate n c)"] assms(1)
    have adv: "advance ?cf = (?cf\<lparr>it := Suc 0, instring := [q]\<rparr>, Fall)"
      by (simp add: advance_def classify_def Let_def CharFilter_init_def t)
    have "fst (next_limited f (?cf\<lparr>it := Suc 0, instring := [q]\<rparr>)) = Inl RecursionError"
    proof (rule string_run_overflows [of _ q _ n])
      show "\<forall>i. it (?cf\<lparr>it := Suc 0, instring := [q]\<rparr>) \<le> i
                \<and> i < it (?cf\<lparr>it := Suc 0, instring := [q]\<rparr>) + n
              \<longrightarrow> content (?cf\<lparr>it := Suc 0, instring := [q]\<rparr>) ! i \<noteq> q"
        using assms(2) by (auto simp: CharFilter_init_def nth_Cons')
    qed (use assms Suc in \<open>simp_all add: CharFilter_init_def\<close>)
    moreover have "content ?cf = q # replicate n c" "it ?cf = 0"
      "filter_strings (?cf\<lparr>it := Suc 0, instring := [q]\<rparr>)"
      "incomment (?cf\<lparr>it := Suc 0, instring := [q]\<rparr>) = []"
      "instring (?cf\<lparr>it := Suc 0, instring := [q]\<rparr>) = [q]"
      by (simp_all add: CharFilter_init_def)
    ultimately show ?thesis
      by (simp add: Suc adv split: prod.splits)
  qed
  then show ?thesis
    by (subst filter_all_limited.simps) (auto split: prod.splits sum.splits option.splits)
qed

section \<open>InputStream\<close>

text \<open>
  The fields of \<open>InputStream\<close> that \<open>next_fortran_line\<close> reads or writes.  \<open>infile\<close> is
  the text of the file that \<open>readline\<close> has not returned yet; the three deques are lists
  with \<open>append\<close> at the end and \<open>popleft\<close> at the head.
\<close>

record InputStream =
  line_buffer :: "string list"
  infile :: string
  line_nr :: nat
  endpos :: "int list"
  what_omp :: "string list"

text \<open>\<open>InputStream.__init__\<close>\<close>

definition InputStream_init :: "string \<Rightarrow> InputStream" where
  "InputStream_init text =
     \<lparr>line_buffer = [], infile = text, line_nr = 0, endpos = [], what_omp = []\<rparr>"

text \<open>
  \<open>infile.readline()\<close>: the text up to and including the first newline (all of it when
  there is none, the empty string at the end of the file), and the text left.
\<close>

fun readline :: "string \<Rightarrow> string \<times> string" where
  "readline [] = ([], [])"
| "readline (c # cs) =
     (if c = nl then ([c], cs) else (c # fst (readline cs), snd (readline cs)))"

text \<open>The three appends that queue one segment (lines 194 to 196, 202 to 204, 209 to 211, 215 to 217).\<close>

definition push_segment :: "InputStream \<Rightarrow> int \<Rightarrow> string \<Rightarrow> string \<Rightarrow> InputStream" where
  "push_segment self e seg omp =
     self\<lparr>endpos := endpos self @ [e], line_buffer := line_buffer self @ [seg],
          what_omp := what_omp self @ [omp]\<rparr>"

text \<open>
  The loop of lines 192 to 198 over \<open>string_iter\<close>.  Its variables: the iterator, \<open>pos\<close>
  (the last position produced; the caller starts it at \<open>-1\<close>), \<open>line_start\<close>, the local
  \<open>what_omp\<close> and the stream.
\<close>

function split_loop ::
  "string \<Rightarrow> CharFilter \<Rightarrow> int \<Rightarrow> int \<Rightarrow> string \<Rightarrow> InputStream
     \<Rightarrow> CharFilter \<times> int \<times> int \<times> string \<times> InputStream" where
  "split_loop line string_iter pos line_start omp self =
     (case next_cf string_iter of
        (None, string_iter') \<Rightarrow> (string_iter', pos, line_start, omp, self)
      | (Some (p, char), string_iter') \<Rightarrow>
          (if char = CHR '';'' \<or> int p + 1 = int (length line) then
             split_loop line string_iter' (int p) (int p + 1) []
               (push_segment self (int p - line_start) (slice line line_start (int p + 1)) omp)
           else split_loop line string_iter' (int p) line_start omp self))"
  by pat_completeness auto
termination
proof (relation "measure (\<lambda>(line, cf, r). length (content cf) - it cf)", goal_cases)
  case 1
  show ?case by simp
next
  case (2 line string_iter pos line_start omp self x cf' y p char)
  from 2 have "next_cf string_iter = (Some y, cf')" by simp
  from next_cf_Some [OF this] show ?case by auto
next
  case (3 line string_iter pos line_start omp self x cf' y p char)
  from 3 have "next_cf string_iter = (Some y, cf')" by simp
  from next_cf_Some [OF this] show ?case by auto
qed

declare split_loop.simps [simp del]

text \<open>
  The loop of lines 206 to 212 over a new \<open>CharFilter\<close> on \<open>line[pos+1:]\<close>: at the first
  position it produces where the two characters match \<open>NOTFORTRAN_LINE_RE\<close> it queues the
  rest of the line and breaks.
\<close>

function notfortran_loop ::
  "string \<Rightarrow> int \<Rightarrow> int \<Rightarrow> string \<Rightarrow> CharFilter \<Rightarrow> InputStream \<Rightarrow> InputStream" where
  "notfortran_loop line pos line_start omp cf self =
     (case next_cf cf of
        (None, cf') \<Rightarrow> self
      | (Some (pos_add, char), cf') \<Rightarrow>
          (if NOTFORTRAN_LINE_search
                (slice line (pos + 1 + int pos_add) (pos + 3 + int pos_add)) then
             push_segment self (pos + int pos_add - line_start) (slice_from line line_start) omp
           else notfortran_loop line pos line_start omp cf' self))"
  by pat_completeness auto
termination
proof (relation "measure (\<lambda>(line, pos, ls, omp, cf, self). length (content cf) - it cf)",
    goal_cases)
  case 1
  show ?case by simp
next
  case (2 line pos line_start omp cf self x cf' y pos_add char)
  from 2 have "next_cf cf = (Some y, cf')" by simp
  from next_cf_Some [OF this] show ?case by auto
qed

declare notfortran_loop.simps [simp del]

text \<open>
  Lines 177 to 217: one physical line is read and cut into queued segments.  The arguments
  are the locals \<open>string_iter\<close> and \<open>fypp_cont\<close> of \<open>next_fortran_line\<close> and the stream.
\<close>

definition read_segments :: "CharFilter \<Rightarrow> bool \<Rightarrow> InputStream \<Rightarrow> CharFilter \<times> InputStream" where
  "read_segments string_iter fypp_cont self =
     (let line0 = expand_tabs (fst (readline (infile self)));
          self1 = self\<lparr>infile := snd (readline (infile self)), line_nr := line_nr self + 1\<rparr>;
          omp0 = (case OMP_SUBS_group1 line0 of None \<Rightarrow> [] | Some g \<Rightarrow> g);
          line = (case OMP_SUBS_group1 line0 of None \<Rightarrow> line0 | Some g \<Rightarrow> remove_first g line0)
      in case split_loop line (update string_iter line True True) (- 1) 0 omp0 self1 of
           (string_iter', pos, line_start, omp, self2) \<Rightarrow>
             (let self3 =
                    (if pos + 1 < int (length line) then
                       (if fypp_cont then push_segment self2 (- 1) line omp
                        else notfortran_loop line pos line_start omp
                               (CharFilter_init (slice_from line (pos + 1)) False True) self2)
                     else self2);
                  self4 =
                    (if line_buffer self3 = [] then push_segment self3 (int (length line)) line []
                     else self3)
              in (string_iter', self4)))"

text \<open>
  The local variables of \<open>next_fortran_line\<close> that live across iterations of its
  \<open>while\<close> loop (\<open>continuation\<close> and \<open>fypp_cont\<close> hold 0 or 1 in the source).
\<close>

record locals =
  joined_line :: string
  comments :: "string list"
  lines :: "string list"
  continuation :: bool
  fypp_cont :: bool
  string_iter :: CharFilter

text \<open>
  Lines 227 to 261: one popped, non-empty segment \<open>line\<close> with its \<open>endpos\<close> and
  \<open>what_omp\<close> is added to the logical line.  \<open>line_comments.strip()[-1]\<close> raises
  \<open>IndexError\<close> when the stripped comment is empty.
\<close>

definition process_segment :: "locals \<Rightarrow> string \<Rightarrow> int \<Rightarrow> string \<Rightarrow> error + locals" where
  "process_segment l line e omp =
     (let lines' = lines l @ [omp @ line];
          line_core0 = slice_to line (e + 1);
          line_comments =
            (if NOTFORTRAN_LINE_search (slice line (e + 1) (e + 3)) \<or> fypp_cont l
             then slice_from line (e + 1) else []);
          newline = (if line_core0 \<noteq> [] then last line_core0 = nl else False);
          line_core1 = strip line_core0;
          continuation1 = (if line_core1 \<noteq> [] then False else continuation l);
          continuation2 = (if endswith_amp line_core1 then True else continuation1);
          line_core = strip_amp line_core1;
          comments' = comments l @ [rstrip_nl line_comments];
          joined_line' =
            (if strip (joined_line l) \<noteq> []
             then rstrip_nl (joined_line l) @ line_core @ (if newline then [nl] else [])
             else omp @ line_core @ (if newline then [nl] else []));
          l' = l\<lparr>joined_line := joined_line', comments := comments', lines := lines',
                  continuation := continuation2\<rparr>
      in if line_comments \<noteq> [] then
           (if FYPP_LINE_search (slice line (e + 1) (e + 3)) \<or> fypp_cont l then
              (if strip line_comments = [] then Inl IndexError
               else Inr (l'\<lparr>fypp_cont := (last (strip line_comments) = CHR ''&'')\<rparr>))
            else Inr (l'\<lparr>fypp_cont := False\<rparr>))
         else Inr l')"

text \<open>
  Lines 176 to 217 and the three \<open>popleft\<close> calls of lines 220 to 222: the stream after
  a line was read if the buffer was empty, and the popped segment.  \<open>popleft\<close> on an empty
  deque raises \<open>IndexError\<close>.
\<close>

definition fill :: "locals \<Rightarrow> InputStream \<Rightarrow> CharFilter \<times> InputStream" where
  "fill l self =
     (if line_buffer self = [] then read_segments (string_iter l) (fypp_cont l) self
      else (string_iter l, self))"

definition pop_segment :: "InputStream \<Rightarrow> error + (string \<times> int \<times> string \<times> InputStream)" where
  "pop_segment self =
     (case line_buffer self of
        [] \<Rightarrow> Inl IndexError
      | line # lb \<Rightarrow>
          (case endpos self of
             [] \<Rightarrow> Inl IndexError
           | e # es \<Rightarrow>
               (case what_omp self of
                  [] \<Rightarrow> Inl IndexError
                | omp # os \<Rightarrow>
                    Inr (line, e, omp,
                         self\<lparr>line_buffer := lb, endpos := es, what_omp := os\<rparr>))))"

lemma push_segment_infile: "infile (push_segment self e seg omp) = infile self"
  by (simp add: push_segment_def)

lemma split_loop_infile:
  "split_loop line cf pos ls omp self = (cf', pos', ls', omp', self') \<Longrightarrow> infile self' = infile self"
proof (induction line cf pos ls omp self rule: split_loop.induct)
  case (1 line string_iter pos line_start omp self)
  from "1.prems" show ?case
    apply (subst (asm) split_loop.simps)
    using "1.IH"
    apply (auto split: prod.splits option.splits if_splits simp: push_segment_infile)
    done
qed

lemma notfortran_loop_infile:
  "infile (notfortran_loop line pos ls omp cf self) = infile self"
proof (induction line pos ls omp cf self rule: notfortran_loop.induct)
  case (1 line pos line_start omp cf self)
  show ?case
    by (subst notfortran_loop.simps, insert 1)
      (auto split: prod.splits option.splits simp: push_segment_infile)
qed

lemma read_segments_infile:
  "infile (snd (read_segments si fc self)) = snd (readline (infile self))"
  by (auto simp: read_segments_def Let_def push_segment_infile notfortran_loop_infile
      split: prod.splits dest!: split_loop_infile)

lemma readline_le: "length (snd (readline t)) \<le> length t"
  by (induction t) auto

lemma readline_shorter: "t \<noteq> [] \<Longrightarrow> length (snd (readline t)) < length t"
  using readline_le by (cases t) (auto simp: less_Suc_eq_le)

lemma read_segments_eof:
  "infile self = [] \<Longrightarrow> line_buffer self = [] \<Longrightarrow>
     line_buffer (snd (read_segments si fc self)) = [[]]"
  by (simp add: read_segments_def Let_def OMP_SUBS_group1_def expand_tabs_def split_loop.simps
      next_cf.simps update_def push_segment_def)

lemma pop_segment_Inr:
  "pop_segment self = Inr (line, e, omp, self') \<Longrightarrow>
     infile self' = infile self \<and> line_buffer self = line # line_buffer self'"
  by (auto simp: pop_segment_def split: list.splits)

lemma pop_decreases:
  assumes pop: "pop_segment (snd (fill l self)) = Inr (line, e, omp, self')"
    and ne: "line \<noteq> []"
  shows "((l', self'), (l, self))
           \<in> measures [\<lambda>(l, s). length (infile s), \<lambda>(l, s). length (line_buffer s)]"
proof -
  note p = pop_segment_Inr [OF pop]
  show ?thesis
  proof (cases "line_buffer self = []")
    case False
    with p show ?thesis by (auto simp: fill_def)
  next
    case True
    show ?thesis
    proof (cases "infile self = []")
      case e: True
      from read_segments_eof [OF e True] p True ne show ?thesis
        by (auto simp: fill_def)
    next
      case False
      from readline_shorter [OF False] p True show ?thesis
        by (auto simp: fill_def read_segments_infile)
    qed
  qed
qed

text \<open>
  The \<open>while 1\<close> loop of \<open>next_fortran_line\<close> (lines 175 to 264) and the \<open>return\<close> of
  line 266.  The result is the returned triple with the stream after the call, or the
  exception raised.
\<close>

function nfl_loop ::
  "locals \<Rightarrow> InputStream \<Rightarrow> error + ((string \<times> string list \<times> string list) \<times> InputStream)" where
  "nfl_loop l self =
     (case pop_segment (snd (fill l self)) of
        Inl err \<Rightarrow> Inl err
      | Inr (line, e, omp, self') \<Rightarrow>
          (if line = [] then Inr ((joined_line l, comments l, lines l), self')
           else
             (case process_segment (l\<lparr>string_iter := fst (fill l self)\<rparr>) line e omp of
                Inl err \<Rightarrow> Inl err
              | Inr l' \<Rightarrow>
                  (if \<not> (continuation l' \<or> fypp_cont l')
                   then Inr ((joined_line l', comments l', lines l'), self')
                   else nfl_loop l' self'))))"
  by pat_completeness auto
termination
proof (relation "measures [\<lambda>(l, s). length (infile s), \<lambda>(l, s). length (line_buffer s)]",
    goal_cases)
  case 1
  show ?case by simp
next
  case (2 l self x line y e z omp self' l')
  then show ?case by (intro pop_decreases [of l self line e omp]) simp_all
qed

declare nfl_loop.simps [simp del]

text \<open>The values of the local variables before the loop (lines 166 to 174).\<close>

definition initial_locals :: locals where
  "initial_locals =
     \<lparr>joined_line = [], comments = [], lines = [], continuation = False,
      fypp_cont = False, string_iter = CharFilter_init [] True True\<rparr>"

text \<open>\<open>InputStream.next_fortran_line\<close>\<close>

definition next_fortran_line ::
  "InputStream \<Rightarrow> error + ((string \<times> string list \<times> string list) \<times> InputStream)" where
  "next_fortran_line self = nfl_loop initial_locals self"

text \<open>
  Projections of the result of a call: the returned triple, its joined text and its list
  of physical lines (\<open>None\<close> when the call raised).
\<close>

definition result_triple ::
  "error + ((string \<times> string list \<times> string list) \<times> InputStream)
     \<Rightarrow> (string \<times> string list \<times> string list) option" where
  "result_triple r = (case r of Inl err \<Rightarrow> None | Inr (t, self') \<Rightarrow> Some t)"

definition joined_text ::
  "error + ((string \<times> string list \<times> string list) \<times> InputStream) \<Rightarrow> string option" where
  "joined_text r = (case r of Inl err \<Rightarrow> None | Inr ((joined, cs, ls), self') \<Rightarrow> Some joined)"

definition physical_lines ::
  "error + ((string \<times> string list \<times> string list) \<times> InputStream) \<Rightarrow> string list option" where
  "physical_lines r = (case r of Inl err \<Rightarrow> None | Inr ((joined, cs, ls), self') \<Rightarrow> Some ls)"

text \<open>
  The number of non-empty segments that the loop pops when it is started with the locals
  \<open>l\<close> on the stream \<open>self\<close>.  This counter is not in the source: it follows the control
  flow of \<open>nfl_loop\<close> and counts the iterations that pass the test \<open>if not line: break\<close>.
\<close>

function segments_consumed :: "locals \<Rightarrow> InputStream \<Rightarrow> nat" where
  "segments_consumed l self =
     (case pop_segment (snd (fill l self)) of
        Inl err \<Rightarrow> 0
      | Inr (line, e, omp, self') \<Rightarrow>
          (if line = [] then 0
           else
             (case process_segment (l\<lparr>string_iter := fst (fill l self)\<rparr>) line e omp of
                Inl err \<Rightarrow> 1
              | Inr l' \<Rightarrow>
                  (if \<not> (continuation l' \<or> fypp_cont l') then 1
                   else 1 + segments_consumed l' self'))))"
  by pat_completeness auto
termination
proof (relation "measures [\<lambda>(l, s). length (infile s), \<lambda>(l, s). length (line_buffer s)]",
    goal_cases)
  case 1
  show ?case by simp
next
  case (2 l self x line y e z omp self' l')
  then show ?case by (intro pop_decreases [of l self line e omp]) simp_all
qed

declare segments_consumed.simps [simp del]

section \<open>The scanner state at the segment boundaries\<close>

text \<open>
  The scanner is in code state when it has no open string or interpolation span and no
  comment: the two tests \<open>not self._instring\<close> and \<open>not self._incomment\<close> of \<open>__next__\<close>.
\<close>

definition in_code :: "CharFilter \<Rightarrow> bool" where
  "in_code cf = (instring cf = [] \<and> incomment cf = [])"

text \<open>
  The state of the scanner after it has examined \<open>n\<close> more characters of its content: the
  state updates of \<open>__next__\<close>, one character at a time, whatever is filtered.
\<close>

definition scan_state :: "CharFilter \<Rightarrow> nat \<Rightarrow> CharFilter" where
  "scan_state cf n = ((\<lambda>c. fst (advance c)) ^^ n) cf"

lemma scan_state_0: "scan_state cf 0 = cf"
  by (simp add: scan_state_def)

lemma scan_state_Suc: "scan_state cf (Suc n) = scan_state (fst (advance cf)) n"
  unfolding scan_state_def by (simp only: funpow_Suc_right o_apply)

lemma scan_state_add: "scan_state cf (m + n) = scan_state (scan_state cf m) n"
  unfolding scan_state_def by (simp only: add.commute [of m n] funpow_add o_apply)

lemma next_cf_flags:
  "filter_comments (snd (next_cf cf)) = filter_comments cf
   \<and> filter_strings (snd (next_cf cf)) = filter_strings cf"
proof (induction cf rule: next_cf.induct)
  case (1 cf)
  show ?case
    by (subst (1 2) next_cf.simps, insert 1)
      (auto simp: advance_frame split: exit.splits prod.splits option.splits)
qed

lemma next_cf_scan: "snd (next_cf cf) = scan_state cf (it (snd (next_cf cf)) - it cf)"
proof (induction cf rule: next_cf.induct)
  case (1 cf)
  let ?a = "fst (advance cf)"
  show ?case
  proof (cases "length (content cf) \<le> it cf")
    case True
    then have "snd (next_cf cf) = cf" by (subst next_cf.simps) auto
    then show ?thesis by (simp add: scan_state_0)
  next
    case lt: False
    have ita: "it ?a = Suc (it cf)" by (simp add: advance_frame)
    have one: "?a = scan_state cf (it ?a - it cf)"
      by (simp add: ita scan_state_Suc scan_state_0 del: One_nat_def)
    have rec: "snd (next_cf ?a) = scan_state cf (it (snd (next_cf ?a)) - it cf)"
      if "snd (next_cf ?a) = scan_state ?a (it (snd (next_cf ?a)) - it ?a)"
    proof -
      from next_cf_bounds [of ?a] ita have "Suc (it cf) \<le> it (snd (next_cf ?a))" by simp
      then have "it (snd (next_cf ?a)) - it cf = Suc (it (snd (next_cf ?a)) - it ?a)"
        using ita by simp
      with that show ?thesis by (simp add: scan_state_Suc)
    qed
    show ?thesis
    proof (cases "snd (advance cf)")
      case Fall
      show ?thesis
      proof (cases "filter_comments ?a \<and> incomment ?a \<noteq> []")
        case True
        with lt Fall have "snd (next_cf cf) = ?a" by (subst next_cf.simps) auto
        with one show ?thesis by simp
      next
        case nc: False
        show ?thesis
        proof (cases "filter_strings ?a \<and> instring ?a \<noteq> []")
          case True
          with lt Fall nc have "snd (next_cf cf) = snd (next_cf ?a)"
            by (subst next_cf.simps) auto
          with rec [OF "1.IH"(1) [OF lt Fall nc True]] show ?thesis by simp
        next
          case False
          with lt Fall nc have "snd (next_cf cf) = ?a" by (subst next_cf.simps) auto
          with one show ?thesis by simp
        qed
      qed
    next
      case Ret1
      with lt have "snd (next_cf cf) = snd (next_cf ?a)" by (subst next_cf.simps) auto
      with rec [OF "1.IH"(2) [OF lt Ret1]] show ?thesis by simp
    next
      case Ret2
      note r1 = rec [OF "1.IH"(3) [OF lt Ret2]]
      show ?thesis
      proof (cases "next_cf ?a")
        case (Pair x cf2)
        show ?thesis
        proof (cases x)
          case None
          with Pair lt Ret2 have "snd (next_cf cf) = snd (next_cf ?a)"
            by (subst next_cf.simps) auto
          with r1 show ?thesis by simp
        next
          case (Some y)
          from "1.IH"(4) [OF lt Ret2 Pair [symmetric] Some]
          have r2: "snd (next_cf cf2) = scan_state cf2 (it (snd (next_cf cf2)) - it cf2)" .
          from Pair r1 have c2: "cf2 = scan_state cf (it cf2 - it cf)" by simp
          from next_cf_bounds [of ?a] Pair ita have le1: "it cf \<le> it cf2" by simp
          from next_cf_bounds [of cf2] have le2: "it cf2 \<le> it (snd (next_cf cf2))" by simp
          have "scan_state cf (it (snd (next_cf cf2)) - it cf)
                  = scan_state (scan_state cf (it cf2 - it cf)) (it (snd (next_cf cf2)) - it cf2)"
            using scan_state_add [of cf "it cf2 - it cf" "it (snd (next_cf cf2)) - it cf2"]
              le1 le2 by simp
          also have "\<dots> = snd (next_cf cf2)" using r2 c2 by simp
          finally have e: "snd (next_cf cf2) = scan_state cf (it (snd (next_cf cf2)) - it cf)"
            by simp
          from Pair Some lt Ret2 have "snd (next_cf cf) = snd (next_cf cf2)"
            by (subst next_cf.simps) auto
          with e show ?thesis by simp
        qed
      qed
    qed
  qed
qed

lemma next_cf_yield:
  "next_cf cf = (Some (p, c), cf') \<Longrightarrow> filter_comments cf \<Longrightarrow> filter_strings cf \<Longrightarrow>
     in_code cf' \<and> it cf' = Suc p \<and> it cf \<le> p \<and> p < length (content cf)"
proof (induction cf arbitrary: p c cf' rule: next_cf.induct)
  case (1 cf)
  let ?a = "fst (advance cf)"
  from "1.prems"(1) have lt: "\<not> length (content cf) \<le> it cf"
    by (subst (asm) next_cf.simps) (simp split: if_splits)
  have fl: "filter_comments ?a" "filter_strings ?a" "it ?a = Suc (it cf)"
    "content ?a = content cf"
    using "1.prems" by (simp_all add: advance_frame)
  show ?case
  proof (cases "snd (advance cf)")
    case Fall
    from "1.prems"(1) lt Fall
    have nc: "\<not> (filter_comments ?a \<and> incomment ?a \<noteq> [])"
      by (subst (asm) next_cf.simps) (auto split: if_splits)
    show ?thesis
    proof (cases "filter_strings ?a \<and> instring ?a \<noteq> []")
      case True
      with "1.prems"(1) lt Fall nc have "next_cf ?a = (Some (p, c), cf')"
        by (subst (asm) next_cf.simps) (simp split: if_splits)
      from "1.IH"(1) [OF lt Fall nc True this fl(1,2)] fl show ?thesis by simp
    next
      case False
      with "1.prems"(1) lt Fall nc fl show ?thesis
        by (subst (asm) next_cf.simps) (auto simp: in_code_def split: if_splits)
    qed
  next
    case Ret1
    with "1.prems"(1) lt have "next_cf ?a = (Some (p, c), cf')"
      by (subst (asm) next_cf.simps) simp
    from "1.IH"(2) [OF lt Ret1 this fl(1,2)] fl show ?thesis by simp
  next
    case Ret2
    with "1.prems"(1) lt obtain y cf2 where
      a: "next_cf ?a = (Some y, cf2)" and b: "next_cf cf2 = (Some (p, c), cf')"
      by (subst (asm) next_cf.simps) (auto split: prod.splits option.splits)
    from next_cf_flags [of ?a] a fl have f2: "filter_comments cf2" "filter_strings cf2" by simp_all
    from next_cf_bounds [of ?a] a fl have b2: "Suc (it cf) \<le> it cf2" "content cf2 = content cf"
      by simp_all
    from "1.IH"(4) [OF lt Ret2 a [symmetric] refl b f2] b2 show ?thesis by simp
  qed
qed


text \<open>
  The offsets in the line at which the queued segments end, counted from the offset \<open>b\<close>
  of the first one, and the offsets at which the line is split: the ends of all segments
  but the last.
\<close>

fun seg_ends :: "nat \<Rightarrow> string list \<Rightarrow> nat list" where
  "seg_ends b [] = []"
| "seg_ends b (s # r) = (b + length s) # seg_ends (b + length s) r"

definition split_points :: "string list \<Rightarrow> nat list" where
  "split_points segs = butlast (seg_ends 0 segs)"

text \<open>
  The text that \<open>read_segments\<close> scans: the next physical line with its tabs expanded and
  its sentinel removed (lines 177 to 185).
\<close>

definition scanned_line :: "InputStream \<Rightarrow> string" where
  "scanned_line self =
     (let line0 = expand_tabs (fst (readline (infile self)))
      in case OMP_SUBS_group1 line0 of None \<Rightarrow> line0 | Some g \<Rightarrow> remove_first g line0)"

text \<open>
  A character that changes nothing in code state: no quote and none of \<open>!\<close>, \<open>#\<close>,
  \<open>$\<close>, \<open>@\<close>, the first characters of the markers.
\<close>

definition plain :: "char \<Rightarrow> bool" where
  "plain c = (\<not> is_quote c \<and> c \<notin> set ''!#$@'')"

text \<open>
  The scanner is in code state when it reaches the offset \<open>m\<close> of its content: after the
  \<open>m\<close> characters before it, it has no delimiter, no comment marker and no interpolation
  flag.
\<close>

definition code_at :: "CharFilter \<Rightarrow> nat \<Rightarrow> bool" where
  "code_at cf m =
     (instring (scan_state cf m) = [] \<and> incomment (scan_state cf m) = []
      \<and> \<not> infypp (scan_state cf m))"

lemma seg_ends_append:
  "seg_ends b (xs @ ys) = seg_ends b xs @ seg_ends (b + sum_list (map length xs)) ys"
  by (induction xs arbitrary: b) (auto simp: add.assoc)

lemma slice_length:
  "0 \<le> ls \<Longrightarrow> nat ls \<le> p \<Longrightarrow> p < length line \<Longrightarrow>
     length (slice line ls (int p + 1)) = Suc p - nat ls"
  by (auto simp: slice_def slice_index_def Let_def min_def nat_add_distrib)

lemma push_segment_buffer:
  "line_buffer (push_segment self e seg omp) = line_buffer self @ [seg]"
  by (simp add: push_segment_def)

lemma split_loop_code:
  assumes "split_loop line cf pos ls omp self = (cf', pos', ls', omp', self')"
    and "content cf = line" "filter_comments cf" "filter_strings cf"
    and "cf = scan_state cf0 (it cf)" "0 \<le> ls" "nat ls \<le> it cf"
  shows "\<exists>segs. line_buffer self' = line_buffer self @ segs
           \<and> (\<forall>n \<in> set (seg_ends (nat ls) segs). in_code (scan_state cf0 n))"
  using assms
proof (induction line cf pos ls omp self rule: split_loop.induct)
  case (1 line string_iter pos line_start omp self)
  show ?case
  proof (cases "next_cf string_iter")
    case (Pair r si')
    show ?thesis
    proof (cases r)
      case None
      with Pair "1.prems"(1) have "self' = self"
        by (subst (asm) split_loop.simps) simp
      then show ?thesis by (intro exI [of _ "[]"]) simp
    next
      case (Some y)
      obtain p c where y: "y = (p, c)" by (cases y)
      from Pair Some y have nx: "next_cf string_iter = (Some (p, c), si')" by simp
      from next_cf_yield [OF nx "1.prems"(3,4)] "1.prems"(2)
      have yl: "in_code si'" "it si' = Suc p" "it string_iter \<le> p" "p < length line" by simp_all
      from next_cf_bounds [of string_iter] next_cf_flags [of string_iter] nx "1.prems"(2,3,4)
      have fr: "content si' = line" "filter_comments si'" "filter_strings si'" by simp_all
      from next_cf_scan [of string_iter] nx
      have "si' = scan_state string_iter (it si' - it string_iter)" by simp
      with "1.prems"(5) scan_state_add [of cf0 "it string_iter" "it si' - it string_iter"] yl
      have sc: "si' = scan_state cf0 (it si')" by simp
      show ?thesis
      proof (cases "c = CHR '';'' \<or> int p + 1 = int (length line)")
        case True
        let ?seg = "slice line line_start (int p + 1)"
        let ?s1 = "push_segment self (int p - line_start) ?seg omp"
        from "1.prems"(1) nx True
        have rec: "split_loop line si' (int p) (int p + 1) [] ?s1 = (cf', pos', ls', omp', self')"
          by (subst (asm) split_loop.simps) simp
        from "1.IH"(1) [OF Pair [symmetric] Some y [symmetric] True rec fr sc] yl
        obtain segs where s: "line_buffer self' = line_buffer ?s1 @ segs"
          "\<forall>n \<in> set (seg_ends (Suc p) segs). in_code (scan_state cf0 n)"
          by (auto simp: nat_add_distrib)
        from "1.prems"(6,7) yl have len: "nat line_start + length ?seg = Suc p"
          by (simp add: slice_length)
        from sc yl have "in_code (scan_state cf0 (Suc p))" by simp
        with s len show ?thesis
          by (intro exI [of _ "?seg # segs"]) (simp add: push_segment_buffer)
      next
        case False
        from "1.prems"(1) nx False
        have rec: "split_loop line si' (int p) line_start omp self = (cf', pos', ls', omp', self')"
          by (subst (asm) split_loop.simps) simp
        from "1.IH"(2) [OF Pair [symmetric] Some y [symmetric] False rec fr sc "1.prems"(6)]
          "1.prems"(7) yl
        show ?thesis by simp
      qed
    qed
  qed
qed

lemma notfortran_loop_buffer:
  "line_buffer (notfortran_loop line pos ls omp cf self) = line_buffer self
   \<or> (\<exists>seg. line_buffer (notfortran_loop line pos ls omp cf self) = line_buffer self @ [seg])"
proof (induction line pos ls omp cf self rule: notfortran_loop.induct)
  case (1 line pos line_start omp cf self)
  show ?case
    by (subst (1 2) notfortran_loop.simps, insert 1)
      (auto split: prod.splits option.splits simp: push_segment_buffer)
qed

lemma split_points_extra:
  "length extra \<le> 1 \<Longrightarrow> set (split_points (segs @ extra)) \<subseteq> set (seg_ends 0 segs)"
proof (cases extra)
  case Nil
  then show ?thesis by (auto simp: split_points_def dest: in_set_butlastD)
next
  case (Cons x xs)
  assume "length extra \<le> 1"
  with Cons have "extra = [x]" by simp
  then show ?thesis by (simp add: split_points_def seg_ends_append)
qed

lemma read_segments_buffer:
  assumes "line_buffer self = []"
  shows "\<exists>segs extra. line_buffer (snd (read_segments si fc self)) = segs @ extra
           \<and> length extra \<le> 1
           \<and> (\<forall>n \<in> set (seg_ends 0 segs).
                 in_code (scan_state (update si (scanned_line self) True True) n))"
proof -
  let ?line = "scanned_line self"
  let ?cf0 = "update si ?line True True"
  let ?self1 = "self\<lparr>infile := snd (readline (infile self)), line_nr := line_nr self + 1\<rparr>"
  let ?omp0 = "case OMP_SUBS_group1 (expand_tabs (fst (readline (infile self)))) of
                 None \<Rightarrow> [] | Some g \<Rightarrow> g"
  obtain si' pos ls omp self2 where
    sl: "split_loop ?line ?cf0 (- 1) 0 ?omp0 ?self1 = (si', pos, ls, omp, self2)"
    by (cases "split_loop ?line ?cf0 (- 1) 0 ?omp0 ?self1") auto
  have "?cf0 = scan_state ?cf0 (it ?cf0)" by (simp add: update_def scan_state_0)
  from split_loop_code [OF sl _ _ _ this] assms
  obtain segs where s2: "line_buffer self2 = segs"
    and code: "\<forall>n \<in> set (seg_ends 0 segs). in_code (scan_state ?cf0 n)"
    by (auto simp: update_def)
  define self3 where "self3 =
     (if pos + 1 < int (length ?line) then
        (if fc then push_segment self2 (- 1) ?line omp
         else notfortran_loop ?line pos ls omp
                (CharFilter_init (slice_from ?line (pos + 1)) False True) self2)
      else self2)"
  define self4 where "self4 =
     (if line_buffer self3 = [] then push_segment self3 (int (length ?line)) ?line [] else self3)"
  have rs: "snd (read_segments si fc self) = self4"
    using sl by (simp add: read_segments_def Let_def scanned_line_def self3_def self4_def)
  have b3: "line_buffer self3 = segs \<or> (\<exists>seg. line_buffer self3 = segs @ [seg])"
    using notfortran_loop_buffer [of ?line pos ls omp
        "CharFilter_init (slice_from ?line (pos + 1)) False True" self2] s2
    by (auto simp: self3_def push_segment_buffer)
  have b4: "line_buffer self4 = segs \<or> (\<exists>seg. line_buffer self4 = segs @ [seg])"
    using b3 by (auto simp: self4_def push_segment_buffer)
  then obtain extra where "line_buffer self4 = segs @ extra" "length extra \<le> 1"
    by (elim disjE exE) (auto intro: that [of "[]"] that [of "[seg]" for seg])
  with code rs show ?thesis by auto
qed

lemma split_points_in_code:
  assumes "line_buffer self = []"
    and "n \<in> set (split_points (line_buffer (snd (read_segments si fc self))))"
  shows "in_code (scan_state (update si (scanned_line self) True True) n)"
proof -
  from read_segments_buffer [OF assms(1), of si fc] obtain segs extra where
    "line_buffer (snd (read_segments si fc self)) = segs @ extra" "length extra \<le> 1"
    "\<forall>n \<in> set (seg_ends 0 segs).
        in_code (scan_state (update si (scanned_line self) True True) n)"
    by blast
  with split_points_extra [of extra segs] assms(2) show ?thesis by auto
qed

lemma scan_state_step: "scan_state cf (Suc n) = fst (advance (scan_state cf n))"
  by (simp add: scan_state_def)

lemma scan_state_frame:
  "content (scan_state cf n) = content cf \<and> it (scan_state cf n) = it cf + n"
  by (induction n) (simp_all add: scan_state_0 scan_state_step advance_frame)

lemma take2_drop:
  "i < length xs \<Longrightarrow> take 2 (drop i xs) = xs ! i # take 1 (drop (Suc i) xs)"
  by (simp add: Cons_nth_drop_Suc [symmetric] numeral_2_eq_2)

lemma notfortran_not_open:
  "length t \<le> 2 \<Longrightarrow> NOTFORTRAN_LINE_search t \<Longrightarrow> \<not> FYPP_OPEN_search t"
  by (cases t; cases "tl t"; cases "tl (tl t)")
    (auto simp: NOTFORTRAN_LINE_search_def)

lemma plain_opens_nothing:
  "plain c \<Longrightarrow> length t \<le> 1 \<Longrightarrow>
     \<not> FYPP_OPEN_search (c # t) \<and> \<not> NOTFORTRAN_LINE_search (c # t)"
  by (cases t; cases "tl t") (auto simp: plain_def NOTFORTRAN_LINE_search_def)

lemma advance_string_open:
  assumes "instring s = []" "incomment s = []" "\<not> infypp s" "it s < length (content s)"
    "is_quote (content s ! it s)"
  shows "instring (fst (advance s)) = [content s ! it s] \<and> \<not> infypp (fst (advance s))"
  using assms quote_opens_nothing_else [of "content s ! it s" "take 1 (drop (Suc (it s)) (content s))"]
  by (simp add: advance_def classify_def Let_def take2_drop)

lemma advance_string_stay:
  "instring s = [q] \<Longrightarrow> \<not> infypp s \<Longrightarrow> content s ! it s \<noteq> q \<Longrightarrow>
     instring (fst (advance s)) = [q] \<and> \<not> infypp (fst (advance s))"
  by (simp add: advance_def classify_def Let_def)

lemma advance_comment_open:
  assumes "instring s = []" "incomment s = []"
    "NOTFORTRAN_LINE_search (take 2 (drop (it s) (content s)))"
  shows "instring (fst (advance s)) = [] \<and> incomment (fst (advance s)) \<noteq> []"
  using assms notfortran_not_open [of "take 2 (drop (it s) (content s))"]
  by (simp add: advance_def classify_def Let_def)

lemma advance_comment_stay:
  "instring s = [] \<Longrightarrow> incomment s \<noteq> [] \<Longrightarrow>
     instring (fst (advance s)) = [] \<and> incomment (fst (advance s)) \<noteq> []"
  by (simp add: advance_def classify_def Let_def)

lemma advance_span_open:
  assumes "instring s = []" "incomment s = []"
    "FYPP_OPEN_search (take 2 (drop (it s) (content s)))"
  shows "instring (fst (advance s)) \<noteq> [] \<and> infypp (fst (advance s))"
  using assms by (auto simp: advance_def classify_def Let_def)

lemma advance_span_stay:
  "instring s \<noteq> [] \<Longrightarrow> infypp s \<Longrightarrow>
   \<not> FYPP_CLOSE_search (take 2 (drop (it s) (content s))) \<Longrightarrow>
     instring (fst (advance s)) \<noteq> [] \<and> infypp (fst (advance s))"
  by (simp add: advance_def classify_def Let_def)

lemma advance_plain:
  assumes "instring s = []" "incomment s = []" "\<not> infypp s" "it s < length (content s)"
    "plain (content s ! it s)"
  shows "instring (fst (advance s)) = [] \<and> incomment (fst (advance s)) = []
         \<and> \<not> infypp (fst (advance s))"
  using assms plain_opens_nothing [of "content s ! it s" "take 1 (drop (Suc (it s)) (content s))"]
  by (simp add: advance_def classify_def Let_def take2_drop plain_def)


lemma string_run:
  assumes "it cf = 0" "content cf = pre @ q # body @ rest" "is_quote q" "q \<notin> set body"
    "code_at cf (length pre)"
  shows "j \<le> length body \<Longrightarrow>
           instring (scan_state cf (Suc (length pre + j))) = [q]
           \<and> \<not> infypp (scan_state cf (Suc (length pre + j)))"
proof (induction j)
  case 0
  let ?s = "scan_state cf (length pre)"
  have "content ?s ! it ?s = q" "it ?s < length (content ?s)"
    using assms(1,2) by (simp_all add: scan_state_frame)
  with advance_string_open [of ?s] assms(3,5) show ?case
    by (simp add: scan_state_step code_at_def)
next
  case (Suc j)
  let ?s = "scan_state cf (Suc (length pre + j))"
  from Suc.prems have "body ! j \<in> set body" by simp
  with assms(4) have "body ! j \<noteq> q" by metis
  moreover have "content ?s ! it ?s = body ! j"
    using assms(1,2) Suc.prems by (simp add: scan_state_frame nth_append)
  ultimately show ?case
    using advance_string_stay [of ?s q] Suc by (simp add: scan_state_step)
qed

lemma comment_run:
  assumes "it cf = 0" "content cf = pre @ rest" "NOTFORTRAN_LINE_search (take 2 rest)"
    "code_at cf (length pre)"
  shows "instring (scan_state cf (Suc (length pre + j))) = []
         \<and> incomment (scan_state cf (Suc (length pre + j))) \<noteq> []"
proof (induction j)
  case 0
  let ?s = "scan_state cf (length pre)"
  have "take 2 (drop (it ?s) (content ?s)) = take 2 rest"
    using assms(1,2) by (simp add: scan_state_frame)
  with advance_comment_open [of ?s] assms(3,4) show ?case
    by (simp add: scan_state_step code_at_def)
next
  case (Suc j)
  with advance_comment_stay [of "scan_state cf (Suc (length pre + j))"] show ?case
    by (simp add: scan_state_step)
qed

lemma span_run:
  assumes "it cf = 0" "content cf = pre @ rest" "FYPP_OPEN_search (take 2 rest)"
    "code_at cf (length pre)"
    "\<forall>j \<in> {1..<k}. \<not> FYPP_CLOSE_search (take 2 (drop j rest))"
  shows "j < k \<Longrightarrow>
           instring (scan_state cf (Suc (length pre + j))) \<noteq> []
           \<and> infypp (scan_state cf (Suc (length pre + j)))"
proof (induction j)
  case 0
  let ?s = "scan_state cf (length pre)"
  have "take 2 (drop (it ?s) (content ?s)) = take 2 rest"
    using assms(1,2) by (simp add: scan_state_frame)
  with advance_span_open [of ?s] assms(3,4) show ?case
    by (simp add: scan_state_step code_at_def)
next
  case (Suc j)
  let ?s = "scan_state cf (Suc (length pre + j))"
  have "take 2 (drop (it ?s) (content ?s)) = take 2 (drop (Suc j) rest)"
    using assms(1,2) by (simp add: scan_state_frame)
  moreover from Suc.prems assms(5) have "\<not> FYPP_CLOSE_search (take 2 (drop (Suc j) rest))"
    by simp
  ultimately show ?case
    using advance_span_stay [of ?s] Suc by (simp add: scan_state_step)
qed

lemma plain_run:
  assumes "it cf = 0" "instring cf = []" "incomment cf = []" "\<not> infypp cf"
  shows "m \<le> length (content cf) \<Longrightarrow> \<forall>c \<in> set (take m (content cf)). plain c \<Longrightarrow>
           code_at cf m"
proof (induction m)
  case 0
  with assms show ?case by (simp add: code_at_def scan_state_0)
next
  case (Suc m)
  let ?s = "scan_state cf m"
  from Suc.prems have lt: "m < length (content cf)" by simp
  then have "take (Suc m) (content cf) = take m (content cf) @ [content cf ! m]"
    by (simp add: take_Suc_conv_app_nth)
  with Suc.prems(2) have pl: "plain (content cf ! m)" "\<forall>c \<in> set (take m (content cf)). plain c"
    by simp_all
  from Suc.IH [OF _ pl(2)] lt have "code_at cf m" by simp
  moreover have "content ?s ! it ?s = content cf ! m" "it ?s < length (content ?s)"
    using assms(1) lt by (simp_all add: scan_state_frame)
  ultimately show ?case
    using advance_plain [of ?s] pl(1) by (simp add: scan_state_step code_at_def)
qed

section \<open>Facts about the loop of next\_fortran\_line\<close>

lemma fill_eof:
  "line_buffer self = [] \<Longrightarrow> infile self = [] \<Longrightarrow>
     snd (fill l self) = push_segment (self\<lparr>infile := [], line_nr := line_nr self + 1\<rparr>) 0 [] []"
  by (simp add: fill_def read_segments_def Let_def OMP_SUBS_group1_def expand_tabs_def
      split_loop.simps next_cf.simps update_def)

lemma pop_eof:
  "line_buffer self = [] \<Longrightarrow> infile self = [] \<Longrightarrow>
     \<exists>e omp self'. pop_segment (snd (fill l self)) = Inr ([], e, omp, self')"
  by (simp add: fill_eof push_segment_def pop_segment_def split: list.splits)

lemma nfl_loop_eof:
  assumes "line_buffer self = []" "infile self = []"
  shows "result_triple (nfl_loop l self) = Some (joined_line l, comments l, lines l)"
proof -
  from pop_eof [OF assms, of l] obtain e omp self'
    where "pop_segment (snd (fill l self)) = Inr ([], e, omp, self')" by blast
  then show ?thesis
    by (subst nfl_loop.simps) (simp add: result_triple_def)
qed

lemma process_segment_lengths:
  "process_segment l line e omp = Inr l' \<Longrightarrow>
     lines l' = lines l @ [omp @ line] \<and> length (lines l') = Suc (length (lines l))
     \<and> length (comments l') = Suc (length (comments l))"
  by (auto simp: process_segment_def Let_def split: if_splits)

lemma nfl_loop_counts:
  "nfl_loop l self = Inr ((joined, cs, ls), self') \<Longrightarrow>
     length cs = length (comments l) + segments_consumed l self
     \<and> length ls = length (lines l) + segments_consumed l self"
proof (induction l self arbitrary: joined cs ls self' rule: nfl_loop.induct)
  case (1 l self)
  show ?case
  proof (cases "pop_segment (snd (fill l self))")
    case (Inl err)
    with "1.prems" show ?thesis by (subst (asm) nfl_loop.simps) simp
  next
    case (Inr r)
    then obtain line e omp s1 where pop: "pop_segment (snd (fill l self)) = Inr (line, e, omp, s1)"
      by (cases r) auto
    show ?thesis
    proof (cases "line = []")
      case True
      with "1.prems" pop show ?thesis
        by (subst (asm) nfl_loop.simps, subst (1 2) segments_consumed.simps) simp
    next
      case ne: False
      show ?thesis
      proof (cases "process_segment (l\<lparr>string_iter := fst (fill l self)\<rparr>) line e omp")
        case (Inl err)
        with "1.prems" pop ne show ?thesis by (subst (asm) nfl_loop.simps) simp
      next
        case (Inr l')
        note len = process_segment_lengths [OF Inr]
        show ?thesis
        proof (cases "continuation l' \<or> fypp_cont l'")
          case False
          with "1.prems" pop ne Inr len show ?thesis
            by (subst (asm) nfl_loop.simps, subst (1 2) segments_consumed.simps) auto
        next
          case True
          with "1.prems" pop ne Inr have rec: "nfl_loop l' s1 = Inr ((joined, cs, ls), self')"
            by (subst (asm) nfl_loop.simps) auto
          have "length cs = length (comments l') + segments_consumed l' s1
                \<and> length ls = length (lines l') + segments_consumed l' s1"
            using "1.IH" [OF pop refl refl refl ne Inr _ rec] True by simp
          with pop ne Inr len True show ?thesis
            by (subst (1 2) segments_consumed.simps) auto
        qed
      qed
    qed
  qed
qed

lemma nfl_loop_none_consumed:
  assumes "nfl_loop l self = Inr ((joined, cs, ls), self')" "segments_consumed l self = 0"
  shows "joined = joined_line l \<and> cs = comments l \<and> ls = lines l"
proof (cases "pop_segment (snd (fill l self))")
  case (Inl err)
  with assms(1) show ?thesis by (subst (asm) nfl_loop.simps) simp
next
  case (Inr r)
  then obtain line e omp s1 where pop: "pop_segment (snd (fill l self)) = Inr (line, e, omp, s1)"
    by (cases r) auto
  from assms(2) pop have "line = []"
    by (subst (asm) segments_consumed.simps) (auto split: if_splits sum.splits)
  with assms(1) pop show ?thesis by (subst (asm) nfl_loop.simps) simp
qed

section \<open>Properties\<close>

subsection \<open>Round trip of the physical lines\<close>

text \<open>
  C1 states that the concatenation of the returned physical lines reproduces the input.
  The code does not do this.  On the indented conditional line \<open>"  !$ x = 1\n"\<close> the
  sentinel is put back in front of the indentation, so the recorded line is
  \<open>"!$   x = 1\n"\<close>.  On the last line \<open>x;a='c'\<close> of a file without final newline the
  segment after the semicolon is never queued: the call returns the line \<open>x;\<close> only and
  leaves the stream exhausted.
\<close>

theorem roundtrip_fails:
  "physical_lines (next_fortran_line (InputStream_init ''  !$ x = 1\<newline>''))
     = Some [''!$   x = 1\<newline>'']
   \<and> next_fortran_line (InputStream_init (''x;a='' @ [squote, CHR ''c'', squote]))
     = Inr ((''x;'', [[]], [''x;'']),
            \<lparr>line_buffer = [], infile = [], line_nr = 1, endpos = [], what_omp = []\<rparr>)"
  by code_simp

subsection \<open>Two statements on one line\<close>

text \<open>
  C2 as stated (the first call on \<open>"a=1;b=2\n"\<close> returns the joined text \<open>"a=1\n"\<close>) does
  not hold.
\<close>

theorem semicolon_example_counterexample:
  "joined_text (next_fortran_line (InputStream_init ''a=1;b=2\<newline>'')) \<noteq> Some ''a=1\<newline>''"
  by code_simp

text \<open>
  C2, amended: on \<open>"a=1;b=2\n"\<close> the first call returns the joined text \<open>"a=1;"\<close> (the
  segment keeps its semicolon and gets no newline) and the second call returns
  \<open>"b=2\n"\<close>, as two separate logical lines of one physical segment each.
\<close>

theorem semicolon_example:
  "next_fortran_line (InputStream_init ''a=1;b=2\<newline>'')
     = Inr ((''a=1;'', [[]], [''a=1;'']),
            \<lparr>line_buffer = [''b=2\<newline>''], infile = [], line_nr = 1, endpos = [3],
             what_omp = [[]]\<rparr>)
   \<and> next_fortran_line
         \<lparr>line_buffer = [''b=2\<newline>''], infile = [], line_nr = 1, endpos = [3],
          what_omp = [[]]\<rparr>
     = Inr ((''b=2\<newline>'', [[]], [''b=2\<newline>'']),
            \<lparr>line_buffer = [], infile = [], line_nr = 1, endpos = [], what_omp = []\<rparr>)"
  by code_simp

subsection \<open>An OpenMP directive line\<close>

text \<open>
  C3 as stated (the joined text of \<open>"!$omp parallel\n"\<close> is exactly that line) does not
  hold.
\<close>

theorem omp_example_counterexample:
  "joined_text (next_fortran_line (InputStream_init ''!$omp parallel\<newline>''))
     \<noteq> Some ''!$omp parallel\<newline>''"
  by code_simp

text \<open>
  C3, amended: on \<open>"!$omp parallel\n"\<close> the joined text is \<open>"!$ompparallel\n"\<close>: the
  sentinel \<open>!$omp\<close> is kept as the prefix of the joined line and not discarded as a
  comment (the comment entry is empty), the code part is stripped of its surrounding
  white space before the sentinel is put in front, and the recorded physical line is the
  input line.
\<close>

theorem omp_example:
  "next_fortran_line (InputStream_init ''!$omp parallel\<newline>'')
     = Inr ((''!$ompparallel\<newline>'', [[]], [''!$omp parallel\<newline>'']),
            \<lparr>line_buffer = [], infile = [], line_nr = 1, endpos = [], what_omp = []\<rparr>)"
  by code_simp

subsection \<open>Template interpolation spans\<close>

text \<open>
  C6 states that interpolation markers are never classified as comments and that a span
  is emitted whole without \<open>filter_strings\<close> and removed as a unit with it.  On
  \<open>a#{b}#c\<close> the \<open>#\<close> of the closing marker, followed by \<open>c\<close>, matches \<open>CPP_STR\<close> and
  starts a comment: with \<open>filter_comments\<close> the scan stops there, so the closing marker
  is cut in two without \<open>filter_strings\<close> and the code after the span is lost with it.
\<close>

theorem fypp_close_lost:
  "fst (filter_all (CharFilter_init ''a#{b}#c'' True False)) = ''a#{b}''
   \<and> incomment (snd (filter_all (CharFilter_init ''a#{b}#c'' True False))) = ''#''
   \<and> fst (filter_all (CharFilter_init ''a#{b}#c'' True True)) = ''a''"
  by code_simp

subsection \<open>Rebinding the scanner\<close>

text \<open>
  C9: \<open>update\<close> sets the content, the iterator position and the two filter flags, and
  leaves every other field as it was: the string delimiter, the interpolation flag (and
  the comment marker) keep their values, so an open string or interpolation span is
  remembered across the rebind.
\<close>

theorem update_keeps_scan_state:
  "instring (update cf string fc fs) = instring cf
   \<and> infypp (update cf string fc fs) = infypp cf
   \<and> incomment (update cf string fc fs) = incomment cf
   \<and> content (update cf string fc fs) = string
   \<and> it (update cf string fc fs) = 0
   \<and> filter_comments (update cf string fc fs) = fc
   \<and> filter_strings (update cf string fc fs) = fs
   \<and> CharFilter.more (update cf string fc fs) = CharFilter.more cf"
  by (simp add: update_def)

subsection \<open>Termination of the scan\<close>

text \<open>
  C10 as stated (\<open>filter_all\<close> is a total function on strings) does not hold: every
  filtered character nests one more call of \<open>__next__\<close>, and on a quote followed by 1000
  other characters, with 1000 frames left, \<open>filter_all\<close> raises \<open>RecursionError\<close>.
\<close>

theorem long_string_counterexample:
  "fst (filter_all_limited 1000 (CharFilter_init (squote # replicate 1000 (CHR ''a'')) True True) [])
     = Inl RecursionError"
  by (rule quoted_run_overflows) (simp_all add: is_quote_def squote_def)

text \<open>
  C10, amended: iterating a \<open>CharFilter\<close> to exhaustion terminates.  Each \<open>__next__\<close>
  call that is allowed a frame and finds the iterator not exhausted, its self-recursive
  skip calls included, leaves the character position strictly larger and at most the
  length of the string, whose content it does not change.  Whenever the interpreter allows
  more nested calls than there are characters left, \<open>__next__\<close> returns what the method
  without recursion limit returns, and \<open>filter_all\<close> returns the filtered string; it is
  not a total function on strings, since a longer filtered run ends in
  \<open>RecursionError\<close>.
\<close>

theorem filter_all_within_limit:
  "(length (content cf) - it cf < frames \<longrightarrow>
      next_limited frames cf = (Inr (fst (next_cf cf)), snd (next_cf cf)))
   \<and> (length string < frames \<longrightarrow>
        filter_all_limited frames (CharFilter_init string fc fs) []
          = (Inr (fst (filter_all (CharFilter_init string fc fs))),
             snd (filter_all (CharFilter_init string fc fs))))
   \<and> (it cf < length (content cf) \<and> 0 < frames \<longrightarrow>
        it cf < it (snd (next_limited frames cf))
        \<and> it (snd (next_limited frames cf)) \<le> length (content cf)
        \<and> content (snd (next_limited frames cf)) = content cf)"
  using next_limited_enough [of cf frames] next_limited_advances [of cf frames]
    filter_all_limited_enough [of "CharFilter_init string fc fs" frames "[]"]
  by (simp add: filter_all_def CharFilter_init_def)

theorem filter_all_within_limit_witness:
  "length (content (CharFilter_init ''a;b'' True True)) - it (CharFilter_init ''a;b'' True True) < 5
   \<and> length ''a;b'' < 5
   \<and> it (CharFilter_init ''a;b'' True True) < length (content (CharFilter_init ''a;b'' True True))
   \<and> (0::nat) < 5
   \<and> filter_all_limited 5 (CharFilter_init ''a;b'' True True) []
        = (Inr (fst (filter_all (CharFilter_init ''a;b'' True True))),
           snd (filter_all (CharFilter_init ''a;b'' True True)))
   \<and> it (CharFilter_init ''a;b'' True True)
        < it (snd (next_limited 5 (CharFilter_init ''a;b'' True True)))"
proof -
  have h1: "length (content (CharFilter_init ''a;b'' True True))
              - it (CharFilter_init ''a;b'' True True) < 5"
    by (simp add: CharFilter_init_def)
  have h2: "length ''a;b'' < 5" by simp
  have h3: "it (CharFilter_init ''a;b'' True True)
              < length (content (CharFilter_init ''a;b'' True True))"
    by (simp add: CharFilter_init_def)
  have h4: "(0::nat) < 5" by simp
  from filter_all_within_limit [of "CharFilter_init ''a;b'' True True" 5 "''a;b''" True True]
    h1 h2 h3 h4
  show ?thesis by blast
qed

subsection \<open>Comments and physical lines of one logical line\<close>



subsection \<open>End of input\<close>

text \<open>
  C7 as stated (the joined text is empty only at end of input, and non-empty for every
  non-empty physical line read) does not hold: the call on the comment line \<open>"!c\n"\<close>
  consumes that line and returns an empty joined text.
\<close>

theorem comment_line_counterexample:
  "next_fortran_line (InputStream_init ''!c\<newline>'')
     = Inr (([], [''!c''], [''!c\<newline>'']),
            \<lparr>line_buffer = [], infile = [], line_nr = 1, endpos = [], what_omp = []\<rparr>)"
  by code_simp

text \<open>
  C7, amended: a call made at end of input (no segment pending, nothing left to read)
  returns an empty joined text, with empty lists of comments and of physical lines; and
  whenever a call returns an empty list of physical lines, its joined text and its
  comments are empty too.  The converse fails: an empty joined text is also returned when
  the source was not at end of input, for a physical line without code part.  The comment
  line \<open>"!c\n"\<close> returns \<open>('', ['!c'], ['!c\n'])\<close>, and a last line \<open>"!$"\<close> without newline
  returns \<open>('', [], [])\<close>, the same triple as the end of input.
\<close>

theorem end_of_input_result:
  "(line_buffer self = [] \<and> infile self = [] \<longrightarrow>
      result_triple (next_fortran_line self) = Some ([], [], []))
   \<and> (next_fortran_line self = Inr ((joined, cs, ls), self') \<and> ls = [] \<longrightarrow>
        joined = [] \<and> cs = [])
   \<and> result_triple (next_fortran_line (InputStream_init ''!c\<newline>''))
       = Some ([], [''!c''], [''!c\<newline>''])
   \<and> result_triple (next_fortran_line (InputStream_init ''!$'')) = Some ([], [], [])"
proof -
  have a: "line_buffer self = [] \<and> infile self = [] \<longrightarrow>
      result_triple (next_fortran_line self) = Some ([], [], [])"
    using nfl_loop_eof [of self initial_locals]
    by (simp add: next_fortran_line_def initial_locals_def)
  have b: "joined = [] \<and> cs = []"
    if h: "next_fortran_line self = Inr ((joined, cs, ls), self')" and e: "ls = []"
  proof -
    from h have n: "nfl_loop initial_locals self = Inr ((joined, cs, ls), self')"
      by (simp add: next_fortran_line_def)
    from nfl_loop_counts [OF n] e
    have c: "segments_consumed initial_locals self = 0"
      by (simp add: initial_locals_def)
    from nfl_loop_none_consumed [OF n c] show ?thesis
      by (simp add: initial_locals_def)
  qed
  have c: "result_triple (next_fortran_line (InputStream_init ''!c\<newline>''))
       = Some ([], [''!c''], [''!c\<newline>''])"
    by code_simp
  have d: "result_triple (next_fortran_line (InputStream_init ''!$'')) = Some ([], [], [])"
    by code_simp
  from a b c d show ?thesis by blast
qed

theorem end_of_input_result_witness:
  "line_buffer (InputStream_init []) = [] \<and> infile (InputStream_init []) = []
   \<and> result_triple (next_fortran_line (InputStream_init [])) = Some ([], [], [])
   \<and> next_fortran_line (InputStream_init [])
       = Inr (([], [], []),
              \<lparr>line_buffer = [], infile = [], line_nr = 1, endpos = [], what_omp = []\<rparr>)"
proof -
  have h: "next_fortran_line (InputStream_init [])
       = Inr (([], [], []),
              \<lparr>line_buffer = [], infile = [], line_nr = 1, endpos = [], what_omp = []\<rparr>)"
    by code_simp
  have e: "line_buffer (InputStream_init []) = [] \<and> infile (InputStream_init []) = []"
    by (simp add: InputStream_init_def)
  from end_of_input_result [of "InputStream_init []" "[]" "[]" "[]"
      "\<lparr>line_buffer = [], infile = [], line_nr = 1, endpos = [], what_omp = []\<rparr>"] h e
  show ?thesis by simp
qed

subsection \<open>Continuation cut off by the end of input\<close>

text \<open>
  C8: when the loop of \<open>next_fortran_line\<close> needs another line (in particular when the
  code part read so far ends in a continuation marker, \<open>continuation = 1\<close>) and the
  source is at end of input with no segment pending, the call raises no error and returns
  the triple accumulated so far.
\<close>

theorem truncated_continuation_returned:
  "line_buffer self = [] \<Longrightarrow> infile self = [] \<Longrightarrow>
     result_triple (nfl_loop l self) = Some (joined_line l, comments l, lines l)"
  by (rule nfl_loop_eof)

theorem truncated_continuation_returned_witness:
  "line_buffer \<lparr>line_buffer = [], infile = [], line_nr = 1, endpos = [], what_omp = []\<rparr> = []
   \<and> infile \<lparr>line_buffer = [], infile = [], line_nr = 1, endpos = [], what_omp = []\<rparr> = []
   \<and> result_triple
        (nfl_loop
           \<lparr>joined_line = ''x = 1 \<newline>'', comments = [[]], lines = [''x = 1 &\<newline>''],
            continuation = True, fypp_cont = False,
            string_iter = update (CharFilter_init [] True True) ''x = 1 &\<newline>'' True True\<rparr>
           \<lparr>line_buffer = [], infile = [], line_nr = 1, endpos = [], what_omp = []\<rparr>)
      = Some (''x = 1 \<newline>'', [[]], [''x = 1 &\<newline>''])
   \<and> result_triple (next_fortran_line (InputStream_init ''x = 1 &\<newline>''))
      = Some (''x = 1 \<newline>'', [[]], [''x = 1 &\<newline>''])"
proof -
  have e: "result_triple (next_fortran_line (InputStream_init ''x = 1 &\<newline>''))
      = Some (''x = 1 \<newline>'', [[]], [''x = 1 &\<newline>''])"
    by code_simp
  from truncated_continuation_returned
    [of "\<lparr>line_buffer = [], infile = [], line_nr = 1, endpos = [], what_omp = []\<rparr>"
        "\<lparr>joined_line = ''x = 1 \<newline>'', comments = [[]], lines = [''x = 1 &\<newline>''],
            continuation = True, fypp_cont = False,
            string_iter = update (CharFilter_init [] True True) ''x = 1 &\<newline>'' True True\<rparr>"]
    e
  show ?thesis by simp
qed

subsection \<open>Where a line is split\<close>

text \<open>
  C5 as stated (a semicolon inside an interpolation span never splits the line) does
  not hold: a span is closed by the first close marker of any kind, and spans are not
  nested.  In the line \<open>@\<close>\<open>{f(${a}$; b)}@\<close> the inner \<open>}$\<close> ends the span that the
  first two characters open, and the line is split at the semicolon that follows, before
  the close marker \<open>}@\<close> of that span.
\<close>

theorem nested_span_counterexample:
  "next_fortran_line (InputStream_init (''@'' @ ''{f(${a}$; b)}@\<newline>''))
     = Inr ((''@'' @ ''{f(${a}$;'', [[]], [''@'' @ ''{f(${a}$;'']),
            \<lparr>line_buffer = ['' b)}@\<newline>''], infile = [], line_nr = 1, endpos = [5],
             what_omp = [[]]\<rparr>)"
  by code_simp

text \<open>
  C5, amended: when \<open>next_fortran_line\<close> reads a physical line (the buffer being empty)
  and cuts it into segments, every offset \<open>n\<close> at which the line is split is one where the
  scanner, after the \<open>n\<close> characters before the cut, has no string or interpolation
  delimiter and no comment marker.  So no split falls
  \<^item> after a quote that the scanner meets in code state, or after any following character
    up to the next occurrence of the same quote;
  \<^item> after the first character of a comment, preprocessor or template line marker met in
    code state, or after any later character of the line;
  \<^item> after the first character of an interpolation open marker met in code state, or
    after any following character before the first close marker \<open>}#\<close>, \<open>}$\<close> or \<open>}@\<close>
    that follows.

  The scanner meets an offset in code state, in particular, when it was in code state at
  the start of the line and no character before the offset is a quote, \<open>!\<close>, \<open>#\<close>,
  \<open>$\<close> or \<open>@\<close>.
\<close>

theorem no_split_inside:
  assumes "line_buffer self = []"
    and "n \<in> set (split_points (line_buffer (snd (read_segments si fc self))))"
  shows
   "in_code (scan_state (update si (scanned_line self) True True) n)
    \<and> (\<forall>pre q body rest.
          scanned_line self = pre @ q # body @ rest \<and> is_quote q \<and> q \<notin> set body
          \<and> code_at (update si (scanned_line self) True True) (length pre)
          \<longrightarrow> \<not> (length pre < n \<and> n \<le> Suc (length pre + length body)))
    \<and> (\<forall>pre rest.
          scanned_line self = pre @ rest \<and> NOTFORTRAN_LINE_search (take 2 rest)
          \<and> code_at (update si (scanned_line self) True True) (length pre)
          \<longrightarrow> n \<le> length pre)
    \<and> (\<forall>pre rest k.
          scanned_line self = pre @ rest \<and> FYPP_OPEN_search (take 2 rest)
          \<and> code_at (update si (scanned_line self) True True) (length pre)
          \<and> (\<forall>j \<in> {1..<k}. \<not> FYPP_CLOSE_search (take 2 (drop j rest)))
          \<longrightarrow> \<not> (length pre < n \<and> n \<le> length pre + k))
    \<and> (\<forall>m. instring si = [] \<and> incomment si = [] \<and> \<not> infypp si
          \<and> m \<le> length (scanned_line self)
          \<and> (\<forall>c \<in> set (take m (scanned_line self)). plain c)
          \<longrightarrow> code_at (update si (scanned_line self) True True) m)"
proof -
  let ?line = "scanned_line self"
  let ?cf = "update si ?line True True"
  have cf: "it ?cf = 0" "content ?cf = ?line" by (simp_all add: update_def)
  have code: "in_code (scan_state ?cf n)"
    using split_points_in_code [OF assms] .
  then have ic: "instring (scan_state ?cf n) = []" "incomment (scan_state ?cf n) = []"
    by (simp_all add: in_code_def)
  have a: "\<not> (length pre < n \<and> n \<le> Suc (length pre + length body))"
    if h: "?line = pre @ q # body @ rest" "is_quote q" "q \<notin> set body"
      "code_at ?cf (length pre)" for pre q body rest
  proof
    assume r: "length pre < n \<and> n \<le> Suc (length pre + length body)"
    then obtain j where j: "n = Suc (length pre + j)" "j \<le> length body"
      by (metis Suc_leI add_Suc le_Suc_ex nat_add_left_cancel_le)
    from string_run [OF cf(1) _ h(2,3,4) j(2)] cf(2) h(1) ic j(1) show False by simp
  qed
  have b: "n \<le> length pre"
    if h: "?line = pre @ rest" "NOTFORTRAN_LINE_search (take 2 rest)"
      "code_at ?cf (length pre)" for pre rest
  proof (rule ccontr)
    assume "\<not> n \<le> length pre"
    then obtain j where j: "n = Suc (length pre + j)"
      by (metis Suc_leI add_Suc le_Suc_ex not_le)
    from comment_run [OF cf(1) _ h(2,3), of j] cf(2) h(1) ic j show False by simp
  qed
  have c: "\<not> (length pre < n \<and> n \<le> length pre + k)"
    if h: "?line = pre @ rest" "FYPP_OPEN_search (take 2 rest)" "code_at ?cf (length pre)"
      "\<forall>j \<in> {1..<k}. \<not> FYPP_CLOSE_search (take 2 (drop j rest))" for pre rest k
  proof
    assume r: "length pre < n \<and> n \<le> length pre + k"
    then obtain j where j: "n = Suc (length pre + j)" "j < k"
      by (metis Suc_leI add_Suc le_Suc_ex Suc_le_lessD Suc_le_mono nat_add_left_cancel_le add_Suc_right)
    from span_run [OF cf(1) _ h(2,3,4) j(2)] cf(2) h(1) ic j(1) show False by simp
  qed
  have d: "code_at ?cf m"
    if h: "instring si = []" "incomment si = []" "\<not> infypp si" "m \<le> length ?line"
      "\<forall>c \<in> set (take m ?line). plain c" for m
    using plain_run [of ?cf m] h by (simp add: update_def)
  from code a b c d show ?thesis by blast
qed

theorem no_split_inside_witness:
  "line_buffer (InputStream_init (''a='' @ squote # ''x;y'' @ squote # '';b\<newline>'')) = []
   \<and> 8 \<in> set (split_points (line_buffer (snd (read_segments (CharFilter_init [] True True) False
          (InputStream_init (''a='' @ squote # ''x;y'' @ squote # '';b\<newline>'')))))) 
   \<and> scanned_line (InputStream_init (''a='' @ squote # ''x;y'' @ squote # '';b\<newline>''))
        = ''a='' @ squote # ''x;y'' @ squote # '';b\<newline>''
   \<and> is_quote squote
   \<and> code_at (update (CharFilter_init [] True True)
        (scanned_line (InputStream_init (''a='' @ squote # ''x;y'' @ squote # '';b\<newline>'')))
        True True) 2
   \<and> in_code (scan_state (update (CharFilter_init [] True True)
        (scanned_line (InputStream_init (''a='' @ squote # ''x;y'' @ squote # '';b\<newline>'')))
        True True) 8)"
proof -
  let ?S = "InputStream_init (''a='' @ squote # ''x;y'' @ squote # '';b\<newline>'')"
  let ?si = "CharFilter_init [] True True"
  have a: "line_buffer ?S = []" by (simp add: InputStream_init_def)
  have b: "8 \<in> set (split_points (line_buffer (snd (read_segments ?si False ?S))))"
    by code_simp
  have c: "scanned_line ?S = ''a='' @ squote # ''x;y'' @ squote # '';b\<newline>''"
    by code_simp
  have d: "is_quote squote" "squote \<notin> set ''x;y''"
    by (simp_all add: is_quote_def squote_def)
  have e: "\<forall>c \<in> set (take 2 (scanned_line ?S)). plain c" by code_simp
  have f: "instring ?si = [] \<and> incomment ?si = [] \<and> \<not> infypp ?si"
    by (simp add: CharFilter_init_def)
  have g: "2 \<le> length (scanned_line ?S)" by code_simp
  note t = no_split_inside [OF a b]
  from t e f g have h: "code_at (update ?si (scanned_line ?S) True True) 2" by blast
  have i: "code_at (update ?si (scanned_line ?S) True True) (length ''a='')"
    using h by (simp add: numeral_2_eq_2)
  from t c d i
  have j: "\<not> (length ''a='' < (8::nat) \<and> 8 \<le> Suc (length ''a='' + length ''x;y''))"
    by blast
  from t have k: "in_code (scan_state (update ?si (scanned_line ?S) True True) 8)" by blast
  from a b c d(1) h j k show ?thesis by (intro conjI)
qed

end
